theory Spec2Isabelle
  imports Main "HOL-Library.Sublist" "HOL-Library.Multiset"
begin

section \<open>JuniperMist/list\_devices.py: paginated device listing\<close>

text \<open>
  The script has two functions. \<open>get_all_devices\<close> follows the \<open>Link\<close> header of
  each response until no next page is announced and collects the records of every page;
  \<open>display_devices\<close> groups the records by their \<open>type\<close> field and prints them.
  Both are embedded below: the HTTP client is a parameter, console output is the list of
  lines printed, and every way a run can end (normal return, \<open>sys.exit\<close>, an uncaught
  exception) is a value.
\<close>

subsection \<open>Values\<close>

text \<open>
  What \<open>response.json()\<close> can return. A JSON object keeps the order of its keys, as a
  Python \<open>dict\<close> does, so it is an association list (a parsed object has distinct keys).
  Numbers are integers: no branch of the source inspects a number.
\<close>

datatype json =
    JNull
  | JBool bool
  | JNum int
  | JStr string
  | JList "json list"
  | JDict "(string \<times> json) list"

datatype pytype = NoneType | BoolT | IntT | StrT | ListT | DictT

fun type_of :: "json \<Rightarrow> pytype" where
  "type_of JNull = NoneType"
| "type_of (JBool b) = BoolT"
| "type_of (JNum n) = IntT"
| "type_of (JStr s) = StrT"
| "type_of (JList xs) = ListT"
| "type_of (JDict m) = DictT"

text \<open>The exceptions of the source that nothing catches, and how a call ends.\<close>

datatype exn = TypeError | IndexError | AttributeError

datatype outcome =
    Returned "json list"
  | Exited nat
  | Raised exn

text \<open>
  One constructor for each \<open>print\<close> statement, holding the values it interpolates.
  The header of a group holds the result of \<open>str.upper\<close>, which may lie outside any
  fixed character set: it is a list of Unicode code points.
\<close>

type_synonym ustring = "nat list"

datatype line =
    DebugResponseType pytype
  | UnexpectedResponseFormat json
  | ErrorFetchingDevices
  | NoDevicesFound
  | FoundDevices nat
  | Rule100
  | DebugFirstDeviceType pytype
  | DebugFirstDeviceKeys "string list"
  | WarningUnexpectedDevice json
  | GroupHeader ustring nat
  | Rule50
  | DeviceSummary json json json json
  | DeviceDetail json json
  | Blank

subsection \<open>The HTTP client\<close>

text \<open>
  A response as the source reads it: \<open>status_code\<close> for \<open>raise_for_status()\<close>,
  \<open>json_body\<close> for \<open>json()\<close> (\<open>None\<close> when the body is not JSON) and
  \<open>link\<close> for \<open>headers.get('Link', '')\<close> (\<open>None\<close> when the header is absent).
  \<open>requests.get\<close> is a parameter: given the number of requests issued before, the URL
  and the request headers it answers with a response, or with \<open>None\<close> when the request
  itself fails (a \<open>RequestException\<close> such as a connection error).
\<close>

record response =
  status_code :: nat
  json_body :: "json option"
  link :: "string option"

type_synonym headers = "(string \<times> string) list"
type_synonym http_get = "nat \<Rightarrow> string \<Rightarrow> headers \<Rightarrow> response option"

text \<open>
  \<open>Response.raise_for_status\<close> of the requests library raises \<open>HTTPError\<close>, a
  \<open>RequestException\<close>, when \<open>400 <= status_code < 600\<close>, and does nothing otherwise.
\<close>

definition raises_for_status :: "response \<Rightarrow> bool" where
  "raises_for_status r = (400 \<le> status_code r \<and> status_code r < 600)"

subsection \<open>Strings\<close>

text \<open>\<open>s.split(c)\<close> for a separator of one character; the result is never empty.\<close>

fun split_on :: "char \<Rightarrow> string \<Rightarrow> string list" where
  "split_on c [] = [[]]"
| "split_on c (x # xs) =
     (if x = c then [] # split_on c xs
      else (case split_on c xs of [] \<Rightarrow> [[x]] | y # ys \<Rightarrow> (x # y) # ys))"

definition rel_next :: string where
  "rel_next = ''rel=\"next\"''"

subsection \<open>get\_all\_devices\<close>

text \<open>
  What \<open>devices.extend(v)\<close> iterates over: the elements of a list, the characters of a
  string, the keys of a dict. Any other value is not iterable and \<open>extend\<close> raises
  \<open>TypeError\<close>.
\<close>

fun py_iter :: "json \<Rightarrow> json list option" where
  "py_iter (JList xs) = Some xs"
| "py_iter (JStr s) = Some (map (\<lambda>c. JStr [c]) s)"
| "py_iter (JDict m) = Some (map (\<lambda>kv. JStr (fst kv)) m)"
| "py_iter v = None"

datatype absorbed = Extended "json list" | Stop | Fail exn

definition list_extend :: "json list \<Rightarrow> json \<Rightarrow> absorbed" where
  "list_extend devices v =
     (case py_iter v of None \<Rightarrow> Fail TypeError | Some xs \<Rightarrow> Extended (devices @ xs))"

text \<open>Lines 37 to 50: the dispatch on the shape of \<open>batch\<close>; \<open>Stop\<close> is the \<open>break\<close>.\<close>

fun absorb :: "json list \<Rightarrow> json \<Rightarrow> absorbed" where
  "absorb devices (JList xs) = Extended (devices @ xs)"
| "absorb devices (JDict m) =
     (case map_of m ''data'' of
        Some v \<Rightarrow> list_extend devices v
      | None \<Rightarrow>
          (case map_of m ''results'' of
             Some v \<Rightarrow> list_extend devices v
           | None \<Rightarrow> Extended (devices @ [JDict m])))"
| "absorb devices batch = Stop"

text \<open>
  Lines 53 to 63: the next URL from \<open>headers.get('Link', '')\<close>. \<open>link.split('<')[1]\<close> raises
  \<open>IndexError\<close> when the entry has no \<open><\<close>; the \<open>else\<close> of the \<open>for\<close> and the
  outer \<open>else\<close> both leave \<open>None\<close>.
\<close>

definition get_link :: "response \<Rightarrow> string" where
  "get_link r = (case link r of None \<Rightarrow> [] | Some h \<Rightarrow> h)"

definition next_url :: "string \<Rightarrow> exn + string option" where
  "next_url link_header =
     (if sublist rel_next link_header then
        (case find (sublist rel_next) (split_on CHR '','' link_header) of
           Some entry \<Rightarrow>
             (case split_on CHR ''<'' entry of
                _ # t # _ \<Rightarrow>
                  (case split_on CHR ''>'' t of
                     u # _ \<Rightarrow> Inr (Some u)
                   | [] \<Rightarrow> Inl IndexError)
              | _ \<Rightarrow> Inl IndexError)
         | None \<Rightarrow> Inr None)
      else Inr None)"

record run =
  outcome :: outcome
  requests :: "string list"
  printed :: "line list"

text \<open>The run that first issues the requests \<open>us\<close> and prints \<open>ls\<close>, then goes on as \<open>r\<close>.\<close>

definition after :: "string list \<Rightarrow> line list \<Rightarrow> run \<Rightarrow> run" where
  "after us ls r = r\<lparr>requests := us @ requests r, printed := ls @ printed r\<rparr>"

definition devices_url :: "string \<Rightarrow> string" where
  "devices_url org_id = ''https://api.mist.com/api/v1/orgs/'' @ org_id @ ''/devices''"

text \<open>
  The \<open>while url:\<close> loop. It has no bound of its own, so the model counts iterations
  down from \<open>fuel\<close> and answers \<open>None\<close> when they run out. \<open>i\<close> is the number of
  requests issued so far. A failed request, a rejected status and a body that is not JSON
  (\<open>requests.exceptions.JSONDecodeError\<close>, since requests 2.27) are all
  \<open>RequestException\<close>s: the handler prints and calls \<open>sys.exit(1)\<close>. Every other
  exception leaves the function uncaught.
\<close>

fun fetch_loop :: "nat \<Rightarrow> (nat \<Rightarrow> string \<Rightarrow> response option) \<Rightarrow> nat \<Rightarrow> string option \<Rightarrow> json list \<Rightarrow> run option" where
  "fetch_loop 0 get i url devices = None"
| "fetch_loop (Suc fuel) get i url devices =
     (case url of
        None \<Rightarrow> Some \<lparr>outcome = Returned devices, requests = [], printed = []\<rparr>
      | Some u \<Rightarrow>
          if u = [] then Some \<lparr>outcome = Returned devices, requests = [], printed = []\<rparr>
          else
            (case get i u of
               None \<Rightarrow> Some \<lparr>outcome = Exited 1, requests = [u], printed = [ErrorFetchingDevices]\<rparr>
             | Some r \<Rightarrow>
                 if raises_for_status r
                 then Some \<lparr>outcome = Exited 1, requests = [u], printed = [ErrorFetchingDevices]\<rparr>
                 else
                   (case json_body r of
                      None \<Rightarrow> Some \<lparr>outcome = Exited 1, requests = [u], printed = [ErrorFetchingDevices]\<rparr>
                    | Some batch \<Rightarrow>
                        (case absorb devices batch of
                           Stop \<Rightarrow>
                             Some \<lparr>outcome = Returned devices, requests = [u],
                                   printed = [DebugResponseType (type_of batch), UnexpectedResponseFormat batch]\<rparr>
                         | Fail e \<Rightarrow>
                             Some \<lparr>outcome = Raised e, requests = [u],
                                   printed = [DebugResponseType (type_of batch)]\<rparr>
                         | Extended devices' \<Rightarrow>
                             (case next_url (get_link r) of
                                Inl e \<Rightarrow>
                                  Some \<lparr>outcome = Raised e, requests = [u],
                                        printed = [DebugResponseType (type_of batch)]\<rparr>
                              | Inr url' \<Rightarrow>
                                  map_option (after [u] [DebugResponseType (type_of batch)])
                                    (fetch_loop fuel get (Suc i) url' devices'))))))"

definition get_all_devices :: "nat \<Rightarrow> http_get \<Rightarrow> string \<Rightarrow> headers \<Rightarrow> run option" where
  "get_all_devices fuel get org_id hdrs =
     fetch_loop fuel (\<lambda>i u. get i u hdrs) 0 (Some (devices_url org_id)) []"

subsection \<open>display\_devices\<close>

text \<open>\<open>device.get(key, default)\<close>, every default of the source being a string.\<close>

definition dict_get :: "(string \<times> json) list \<Rightarrow> string \<Rightarrow> string \<Rightarrow> json" where
  "dict_get m k d = (case map_of m k of None \<Rightarrow> JStr d | Some v \<Rightarrow> v)"

text \<open>
  \<open>device_types\<close> is a dict from the type value to the list of its devices, in
  insertion order. A list or a dict cannot be a key (\<open>TypeError\<close>: unhashable), and
  among the other values only \<open>True\<close> and \<open>1\<close>, \<open>False\<close> and \<open>0\<close> are equal
  keys without being the same value.
\<close>

fun hashable :: "json \<Rightarrow> bool" where
  "hashable (JList xs) = False"
| "hashable (JDict m) = False"
| "hashable v = True"

fun key_eq :: "json \<Rightarrow> json \<Rightarrow> bool" where
  "key_eq (JBool b) (JNum n) = (n = (if b then 1 else 0))"
| "key_eq (JNum n) (JBool b) = (n = (if b then 1 else 0))"
| "key_eq a b = (a = b)"

type_synonym groups = "(json \<times> json list) list"

text \<open>Lines 95 to 97: create the group when the key is new, then append the device.\<close>

fun append_to :: "json \<Rightarrow> json \<Rightarrow> groups \<Rightarrow> groups" where
  "append_to k d [] = [(k, [d])]"
| "append_to k d ((k', ds) # gs) =
     (if key_eq k' k then (k', ds @ [d]) # gs else (k', ds) # append_to k d gs)"

text \<open>Lines 88 to 97: the grouping loop, with the warnings it prints.\<close>

fun group_loop :: "json list \<Rightarrow> groups \<Rightarrow> line list \<times> (exn + groups)" where
  "group_loop [] gs = ([], Inr gs)"
| "group_loop (device # rest) gs =
     (case device of
        JDict m \<Rightarrow>
          (let device_type = dict_get m ''type'' ''Unknown''
           in if hashable device_type then group_loop rest (append_to device_type device gs)
              else ([], Inl TypeError))
      | _ \<Rightarrow>
          (case group_loop rest gs of
             (ls, r) \<Rightarrow> (WarningUnexpectedDevice device # ls, r)))"

text \<open>
  A format specification such as \<open>:<20\<close> is accepted by strings and numbers;
  \<open>None\<close>, lists and dicts raise \<open>TypeError\<close>.
\<close>

fun format_ok :: "json \<Rightarrow> bool" where
  "format_ok (JStr s) = True"
| "format_ok (JNum n) = True"
| "format_ok (JBool b) = True"
| "format_ok v = False"

text \<open>Lines 104 to 113: the three \<open>print\<close> calls for one device.\<close>

definition show_device :: "json \<Rightarrow> line list \<times> exn option" where
  "show_device device =
     (case device of
        JDict m \<Rightarrow>
          (let name = dict_get m ''name'' ''Unnamed'';
               model = dict_get m ''model'' ''N/A'';
               mac = dict_get m ''mac'' ''N/A'';
               serial = dict_get m ''serial'' ''N/A'';
               status = dict_get m ''status'' ''N/A'';
               site_id = dict_get m ''site_id'' ''N/A''
           in if \<not> (format_ok name \<and> format_ok model) then ([], Some TypeError)
              else if \<not> format_ok serial
              then ([DeviceSummary name model mac status], Some TypeError)
              else ([DeviceSummary name model mac status, DeviceDetail serial site_id, Blank], None))
      | _ \<Rightarrow> ([], Some AttributeError))"

fun show_members :: "json list \<Rightarrow> line list \<times> exn option" where
  "show_members [] = ([], None)"
| "show_members (device # rest) =
     (case show_device device of
        (ls, Some e) \<Rightarrow> (ls, Some e)
      | (ls, None) \<Rightarrow> (case show_members rest of (ls', r) \<Rightarrow> (ls @ ls', r)))"

text \<open>
  Lines 99 to 113. \<open>device_type.upper()\<close> raises \<open>AttributeError\<close> unless the key is
  a string. \<open>str.upper\<close> belongs to the Python runtime and follows the Unicode case
  tables, which are no part of this repository: it is the parameter \<open>up\<close>.
\<close>

fun show_groups :: "(string \<Rightarrow> ustring) \<Rightarrow> groups \<Rightarrow> line list \<times> exn option" where
  "show_groups up [] = ([], None)"
| "show_groups up ((device_type, type_devices) # gs) =
     (case device_type of
        JStr t \<Rightarrow>
          (case show_members type_devices of
             (ls, Some e) \<Rightarrow> (GroupHeader (up t) (length type_devices) # Rule50 # ls, Some e)
           | (ls, None) \<Rightarrow>
               (case show_groups up gs of
                  (ls', r) \<Rightarrow> (GroupHeader (up t) (length type_devices) # Rule50 # ls @ ls', r)))
      | _ \<Rightarrow> ([], Some AttributeError))"

definition display_devices :: "(string \<Rightarrow> ustring) \<Rightarrow> json list \<Rightarrow> line list \<times> exn option" where
  "display_devices up devices =
     (case devices of
        [] \<Rightarrow> ([NoDevicesFound], None)
      | first # _ \<Rightarrow>
          (let banner = [FoundDevices (length devices), Rule100, DebugFirstDeviceType (type_of first)] @
                        (case first of JDict m \<Rightarrow> [DebugFirstDeviceKeys (map fst m)] | _ \<Rightarrow> [])
           in case group_loop devices [] of
                (ws, Inl e) \<Rightarrow> (banner @ ws, Some e)
              | (ws, Inr gs) \<Rightarrow> (case show_groups up gs of (ls, r) \<Rightarrow> (banner @ ws @ ls, r))))"

subsection \<open>What the specification says\<close>

text \<open>
  Section 4.1, step c, in the specification's words: the records of a page are the
  elements of a sequence, the sequence at \<open>data\<close> or else at \<open>results\<close> of a mapping,
  or the mapping itself; any other page is malformed.
\<close>

fun spec_page_records :: "json \<Rightarrow> json list option" where
  "spec_page_records (JList xs) = Some xs"
| "spec_page_records (JDict m) =
     (case map_of m ''data'' of
        Some (JList xs) \<Rightarrow> Some xs
      | Some _ \<Rightarrow> None
      | None \<Rightarrow>
          (case map_of m ''results'' of
             Some (JList xs) \<Rightarrow> Some xs
           | Some _ \<Rightarrow> None
           | None \<Rightarrow> Some [JDict m]))"
| "spec_page_records v = None"

text \<open>
  Section 4.1, step d, in the specification's words: the entry of the header that
  contains the marker, and the URL between \<open><\<close> and \<open>>\<close> in that entry.
\<close>

datatype next_link = NoNext | Malformed | NextUrl string

definition spec_next_url :: "string \<Rightarrow> next_link" where
  "spec_next_url h =
     (case find (sublist rel_next) (split_on CHR '','' h) of
        None \<Rightarrow> NoNext
      | Some entry \<Rightarrow>
          (let rest = tl (dropWhile (\<lambda>c. c \<noteq> CHR ''<'') entry)
           in if CHR ''<'' \<in> set entry \<and> CHR ''>'' \<in> set rest
              then NextUrl (takeWhile (\<lambda>c. c \<noteq> CHR ''>'') rest)
              else Malformed))"

text \<open>
  A paginated sequence: request \<open>i\<close> goes to \<open>u\<close>, the pages listed are served one
  after the other, each with an accepted status and a body of records, each announcing the
  URL of the one after it. \<open>nxt\<close> is where the last page listed points: \<open>None\<close>
  when it has no \<open>rel="next"\<close> entry.
\<close>

record page =
  page_url :: string
  page_response :: response
  page_records :: "json list"

definition page_ok :: "(nat \<Rightarrow> string \<Rightarrow> response option) \<Rightarrow> nat \<Rightarrow> string \<Rightarrow> page \<Rightarrow> bool" where
  "page_ok get i u p =
     (u \<noteq> [] \<and> page_url p = u \<and> get i u = Some (page_response p) \<and>
      \<not> raises_for_status (page_response p) \<and>
      (case json_body (page_response p) of
         None \<Rightarrow> False
       | Some b \<Rightarrow> spec_page_records b = Some (page_records p)))"

fun served :: "(nat \<Rightarrow> string \<Rightarrow> response option) \<Rightarrow> nat \<Rightarrow> string \<Rightarrow> page list \<Rightarrow> string option \<Rightarrow> bool" where
  "served get i u [] nxt = (nxt = Some u)"
| "served get i u (p # ps) nxt =
     (page_ok get i u p \<and>
      (case spec_next_url (get_link (page_response p)) of
         NoNext \<Rightarrow> ps = [] \<and> nxt = None
       | NextUrl v \<Rightarrow> CHR ''<'' \<notin> set v \<and> served get (Suc i) v ps nxt
       | Malformed \<Rightarrow> False))"

text \<open>
  The same chain with nothing asked of the pages but their links: any status, any body.
\<close>

fun linked :: "(nat \<Rightarrow> string \<Rightarrow> response option) \<Rightarrow> nat \<Rightarrow> string \<Rightarrow> response list \<Rightarrow> bool" where
  "linked get i u [] = False"
| "linked get i u (r # rs) =
     (get i u = Some r \<and>
      (case spec_next_url (get_link r) of
         NoNext \<Rightarrow> rs = []
       | NextUrl v \<Rightarrow> CHR ''<'' \<notin> set v \<and> linked get (Suc i) v rs
       | Malformed \<Rightarrow> False))"

text \<open>
  What a page served makes the loop print, and how a response leads on: to no further
  page when it has no \<open>rel="next"\<close> entry, else to the pages served from the URL it
  announces, the last of which announces none.
\<close>

definition page_line :: "page \<Rightarrow> line" where
  "page_line p =
     (case json_body (page_response p) of
        None \<Rightarrow> ErrorFetchingDevices
      | Some b \<Rightarrow> DebugResponseType (type_of b))"

definition onward :: "(nat \<Rightarrow> string \<Rightarrow> response option) \<Rightarrow> nat \<Rightarrow> response \<Rightarrow> page list \<Rightarrow> bool" where
  "onward get i r qs =
     (case spec_next_url (get_link r) of
        NoNext \<Rightarrow> qs = []
      | NextUrl w \<Rightarrow> CHR ''<'' \<notin> set w \<and> served get i w qs None
      | Malformed \<Rightarrow> False)"

text \<open>
  First-seen order: each value once, at the place of its first occurrence.
\<close>

fun first_seen :: "'a list \<Rightarrow> 'a list" where
  "first_seen [] = []"
| "first_seen (x # xs) = x # filter (\<lambda>y. y \<noteq> x) (first_seen xs)"

subsection \<open>Records that can be displayed\<close>

text \<open>\<open>isinstance(device, dict)\<close>.\<close>

fun is_dict :: "json \<Rightarrow> bool" where
  "is_dict (JDict m) = True"
| "is_dict v = False"

text \<open>
  The records on which \<open>display_devices\<close> raises nothing: \<open>type\<close> is absent or a
  string (so that it can be a key and has \<open>upper\<close>), and \<open>name\<close>, \<open>model\<close> and
  \<open>serial\<close>, which are printed with a width, are absent, strings or numbers. The records of
  the specification's data model, whose fields are all strings, are of this kind.
\<close>

definition record_ok :: "(string \<times> json) list \<Rightarrow> bool" where
  "record_ok m =
     ((case map_of m ''type'' of None \<Rightarrow> True | Some v \<Rightarrow> type_of v = StrT) \<and>
      format_ok (dict_get m ''name'' ''Unnamed'') \<and>
      format_ok (dict_get m ''model'' ''N/A'') \<and>
      format_ok (dict_get m ''serial'' ''N/A''))"

fun displayable_device :: "json \<Rightarrow> bool" where
  "displayable_device (JDict m) = record_ok m"
| "displayable_device v = True"

definition displayable :: "json list \<Rightarrow> bool" where
  "displayable devices = list_all displayable_device devices"

text \<open>The type of a record as the specification has it: a string, \<open>Unknown\<close> when absent.\<close>

fun type_name :: "json \<Rightarrow> string" where
  "type_name (JDict m) = (case map_of m ''type'' of Some (JStr t) \<Rightarrow> t | _ \<Rightarrow> ''Unknown'')"
| "type_name v = ''Unknown''"

text \<open>
  The groups the specification describes: one for each type in first-seen order, holding
  the records of that type in their original order.
\<close>

definition grouped :: "json list \<Rightarrow> (string \<times> json list) list" where
  "grouped ds =
     map (\<lambda>t. (t, filter (\<lambda>d. type_name d = t) ds)) (first_seen (map type_name ds))"






text \<open>The same groups as the loop holds them, keyed by the type value.\<close>

definition as_groups :: "(string \<times> json list) list \<Rightarrow> groups" where
  "as_groups gs = map (\<lambda>g. (JStr (fst g), snd g)) gs"

text \<open>Reading the output: the lines of one device, the header lines, the warnings.\<close>

definition device_lines :: "json \<Rightarrow> line list" where
  "device_lines d = fst (show_device d)"

fun group_lines :: "(string \<Rightarrow> ustring) \<Rightarrow> string \<times> json list \<Rightarrow> line list" where
  "group_lines up (t, ds) = GroupHeader (up t) (length ds) # Rule50 # concat (map device_lines ds)"

fun is_header :: "line \<Rightarrow> bool" where
  "is_header (GroupHeader t n) = True"
| "is_header l = False"

fun is_warning :: "line \<Rightarrow> bool" where
  "is_warning (WarningUnexpectedDevice d) = True"
| "is_warning l = False"

fun is_device_line :: "line \<Rightarrow> bool" where
  "is_device_line (DeviceSummary a b c d) = True"
| "is_device_line (DeviceDetail a b) = True"
| "is_device_line Blank = True"
| "is_device_line l = False"

definition banner :: "json list \<Rightarrow> line list" where
  "banner devices =
     [FoundDevices (length devices), Rule100, DebugFirstDeviceType (type_of (hd devices))] @
     (case hd devices of JDict m \<Rightarrow> [DebugFirstDeviceKeys (map fst m)] | _ \<Rightarrow> [])"

subsection \<open>Example servers\<close>

text \<open>
  Two pages: a bare sequence that announces a second page, then a mapping with
  \<open>data\<close> and no \<open>Link\<close> header.
\<close>

definition page_two_url :: string where
  "page_two_url = ''https://api.mist.com/api/v1/orgs/o/devices?page=2''"

definition ap1 :: json where
  "ap1 = JDict [(''type'', JStr ''ap''), (''name'', JStr ''lobby'')]"

definition ap2 :: json where
  "ap2 = JDict [(''type'', JStr ''ap'')]"

definition sw1 :: json where
  "sw1 = JDict [(''type'', JStr ''switch''), (''name'', JStr ''core'')]"

definition first_page :: response where
  "first_page = \<lparr>status_code = 200, json_body = Some (JList [ap1, ap2]),
                 link = Some (''<'' @ page_two_url @ ''>; rel=\"next\"'')\<rparr>"

definition second_page :: response where
  "second_page = \<lparr>status_code = 200, json_body = Some (JDict [(''data'', JList [sw1])]),
                  link = None\<rparr>"

definition two_pages :: http_get where
  "two_pages i u hdrs =
     (if u = devices_url ''o'' then Some first_page
      else if u = page_two_url then Some second_page
      else None)"

text \<open>One page: a bare sequence, no \<open>Link\<close> header.\<close>

definition one_page :: http_get where
  "one_page i u hdrs = Some \<lparr>status_code = 200, json_body = Some (JList [ap1, sw1]), link = None\<rparr>"

text \<open>The second page answers 503.\<close>

definition second_unavailable :: http_get where
  "second_unavailable i u hdrs =
     (if u = devices_url ''o'' then Some first_page
      else Some \<lparr>status_code = 503, json_body = None, link = None\<rparr>)"

text \<open>A 300 answer that carries a list of records.\<close>

definition multiple_choices :: http_get where
  "multiple_choices i u hdrs =
     Some \<lparr>status_code = 300, json_body = Some (JList [ap1]), link = None\<rparr>"

text \<open>A first page whose body is a string and whose header announces a second page.\<close>

definition notice_page :: response where
  "notice_page = \<lparr>status_code = 200, json_body = Some (JStr ''maintenance''),
                  link = Some (''<'' @ page_two_url @ ''>; rel=\"next\"'')\<rparr>"

definition notice_first :: http_get where
  "notice_first i u hdrs =
     (if u = devices_url ''o'' then Some notice_page
      else if u = page_two_url then Some second_page
      else None)"

text \<open>The second page's body is a number.\<close>

definition number_second :: http_get where
  "number_second i u hdrs =
     (if u = devices_url ''o'' then Some first_page
      else Some \<lparr>status_code = 200, json_body = Some (JNum 7), link = None\<rparr>)"

text \<open>A \<open>Link\<close> header with the marker and no URL.\<close>

definition marker_only :: http_get where
  "marker_only i u hdrs =
     Some \<lparr>status_code = 200, json_body = Some (JList [ap1]), link = Some ''rel=\"next\"''\<rparr>"

text \<open>Every page announces the URL the run started from.\<close>

definition cyclic :: http_get where
  "cyclic i u hdrs =
     Some \<lparr>status_code = 200, json_body = Some (JList [ap1]),
           link = Some ''<https://api.mist.com/api/v1/orgs/o/devices>; rel=\"next\"''\<rparr>"

text \<open>A next URL with a comma in its query; the page it names exists.\<close>

definition fields_url :: string where
  "fields_url = ''https://api.mist.com/api/v1/orgs/o/devices?page=2&fields=name,mac''"

definition comma_page :: response where
  "comma_page = \<lparr>status_code = 200, json_body = Some (JList [ap1, ap2]),
                 link = Some (''<'' @ fields_url @ ''>; rel=\"next\"'')\<rparr>"

definition comma_link :: http_get where
  "comma_link i u hdrs =
     (if u = devices_url ''o'' then Some comma_page
      else if u = fields_url then Some second_page
      else None)"


text \<open>
  Three pages, the second with the body given: it announces the third, which is the last.
\<close>

definition page_three_url :: string where
  "page_three_url = ''https://api.mist.com/api/v1/orgs/o/devices?page=3''"

definition middle_page :: "json \<Rightarrow> response" where
  "middle_page b = \<lparr>status_code = 200, json_body = Some b,
                     link = Some (''<'' @ page_three_url @ ''>; rel=\"next\"'')\<rparr>"

definition third_page :: response where
  "third_page = \<lparr>status_code = 200, json_body = Some (JList [sw1]), link = None\<rparr>"

definition three_pages :: "json \<Rightarrow> http_get" where
  "three_pages b i u hdrs =
     (if u = devices_url ''o'' then Some first_page
      else if u = page_two_url then Some (middle_page b)
      else if u = page_three_url then Some third_page
      else None)"

text \<open>
  The code points of a literal. For the examples of \<open>display_devices\<close> only, an
  instance of the parameter \<open>up\<close>: it turns the ASCII letters into upper case and
  leaves every other character, which is what \<open>str.upper\<close> does on the strings of the
  examples, all of them ASCII. No theorem is about this instance.
\<close>

definition lit :: "string \<Rightarrow> ustring" where
  "lit s = map of_char s"

definition ascii_upper :: "string \<Rightarrow> ustring" where
  "ascii_upper s = map (\<lambda>c. let n = of_char c in if 97 \<le> n \<and> n \<le> 122 then n - 32 else n) s"



section \<open>Properties\<close>

subsection \<open>Splitting strings and reading the Link header\<close>

lemma split_on_nonempty: "split_on c s \<noteq> []"
  by (induction s) (auto split: list.splits)

lemma split_on_unfold:
  "split_on c s =
     (if c \<in> set s
      then takeWhile (\<lambda>x. x \<noteq> c) s # split_on c (tl (dropWhile (\<lambda>x. x \<noteq> c) s))
      else [s])"
proof (induction s)
  case Nil
  then show ?case by simp
next
  case (Cons x xs)
  then show ?case
    by (cases "split_on c xs") (auto simp: split_on_nonempty)
qed

lemma hd_split_on: "hd (split_on c s) = takeWhile (\<lambda>x. x \<noteq> c) s"
  by (induction s) (auto split: list.splits simp: split_on_nonempty)

lemma split_on_part_sublist: "e \<in> set (split_on c s) \<Longrightarrow> sublist e s"
proof (induction s arbitrary: e)
  case Nil
  then show ?case by simp
next
  case (Cons x xs)
  show ?case
  proof (cases "x = c")
    case True
    with Cons show ?thesis by (auto simp: sublist_Cons_right)
  next
    case False
    obtain y ys where sp: "split_on c xs = y # ys"
      using split_on_nonempty [of c xs] by (cases "split_on c xs") auto
    have "prefix y xs"
      using hd_split_on [of c xs] sp by (simp add: takeWhile_is_prefix)
    with Cons False sp show ?thesis
      by (auto simp: sublist_Cons_right)
  qed
qed

lemma takeWhile_twice:
  "a \<notin> set (takeWhile (\<lambda>x. x \<noteq> b) t) \<Longrightarrow>
   takeWhile (\<lambda>x. x \<noteq> b) (takeWhile (\<lambda>x. x \<noteq> a) t) = takeWhile (\<lambda>x. x \<noteq> b) t"
  by (induction t) auto

lemma second_of_split:
  "CHR ''<'' \<in> set e \<Longrightarrow>
   \<exists>a zs. split_on CHR ''<'' e =
      a # takeWhile (\<lambda>c. c \<noteq> CHR ''<'') (tl (dropWhile (\<lambda>c. c \<noteq> CHR ''<'') e)) # zs"
proof -
  assume mem: "CHR ''<'' \<in> set e"
  let ?rest = "tl (dropWhile (\<lambda>c. c \<noteq> CHR ''<'') e)"
  obtain y ys where sp: "split_on CHR ''<'' ?rest = y # ys"
    using split_on_nonempty [of "CHR ''<''" ?rest] by (cases "split_on CHR ''<'' ?rest") auto
  have "y = takeWhile (\<lambda>c. c \<noteq> CHR ''<'') ?rest"
    using hd_split_on [of "CHR ''<''" ?rest] sp by simp
  with mem sp show ?thesis
    by (subst split_on_unfold) simp
qed

lemma no_second_of_split: "CHR ''<'' \<notin> set e \<Longrightarrow> split_on CHR ''<'' e = [e]"
  by (subst split_on_unfold) simp

lemma first_of_split: "\<exists>zs. split_on c t = takeWhile (\<lambda>x. x \<noteq> c) t # zs"
  using hd_split_on [of c t] split_on_nonempty [of c t]
  by (cases "split_on c t") auto

lemma entry_url:
  "(case split_on CHR ''<'' e of
      _ # t # _ \<Rightarrow> (case split_on CHR ''>'' t of u # _ \<Rightarrow> Inr (Some u) | [] \<Rightarrow> Inl IndexError)
    | _ \<Rightarrow> Inl IndexError) =
   (if CHR ''<'' \<in> set e
    then Inr (Some (takeWhile (\<lambda>c. c \<noteq> CHR ''>'')
                     (takeWhile (\<lambda>c. c \<noteq> CHR ''<'') (tl (dropWhile (\<lambda>c. c \<noteq> CHR ''<'') e)))))
    else Inl IndexError)"
proof (cases "CHR ''<'' \<in> set e")
  case True
  let ?t = "takeWhile (\<lambda>c. c \<noteq> CHR ''<'') (tl (dropWhile (\<lambda>c. c \<noteq> CHR ''<'') e))"
  obtain a zs where s1: "split_on CHR ''<'' e = a # ?t # zs"
    using second_of_split [OF True] by blast
  obtain ws where s2: "split_on CHR ''>'' ?t = takeWhile (\<lambda>c. c \<noteq> CHR ''>'') ?t # ws"
    using first_of_split [of "CHR ''>''" ?t] by blast
  show ?thesis using True by (simp add: s1 s2)
next
  case False
  then show ?thesis by (simp add: no_second_of_split)
qed

lemma next_url_entry:
  "next_url h =
     (if sublist rel_next h then
        (case find (sublist rel_next) (split_on CHR '','' h) of
           None \<Rightarrow> Inr None
         | Some e \<Rightarrow>
             if CHR ''<'' \<in> set e
             then Inr (Some (takeWhile (\<lambda>c. c \<noteq> CHR ''>'')
                               (takeWhile (\<lambda>c. c \<noteq> CHR ''<'') (tl (dropWhile (\<lambda>c. c \<noteq> CHR ''<'') e)))))
             else Inl IndexError)
      else Inr None)"
  unfolding next_url_def entry_url by (simp split: option.splits)

lemma found_entry_sublist:
  "find (sublist rel_next) (split_on c h) = Some e \<Longrightarrow> sublist rel_next h"
proof -
  assume f: "find (sublist rel_next) (split_on c h) = Some e"
  then have "e \<in> set (split_on c h)" "sublist rel_next e"
    by (auto simp: find_Some_iff)
  then show ?thesis
    using split_on_part_sublist sublist_order.order_trans by blast
qed

lemma next_url_NoNext: "spec_next_url h = NoNext \<Longrightarrow> next_url h = Inr None"
  by (simp add: next_url_entry spec_next_url_def Let_def split: option.splits if_splits)

lemma next_url_NextUrl:
  "spec_next_url h = NextUrl v \<Longrightarrow> CHR ''<'' \<notin> set v \<Longrightarrow> next_url h = Inr (Some v)"
  by (auto simp: next_url_entry spec_next_url_def Let_def found_entry_sublist takeWhile_twice
           split: option.splits if_splits)

lemma absorb_spec: "spec_page_records b = Some xs \<Longrightarrow> absorb devices b = Extended (devices @ xs)"
  by (cases b) (auto simp: list_extend_def split: option.splits json.splits)

subsection \<open>The loop over a paginated sequence\<close>

lemma after_Nil: "after [] [] r = r"
  by (simp add: after_def)

lemma after_after: "after us ls (after vs ms r) = after (us @ vs) (ls @ ms) r"
  by (simp add: after_def)

lemma fetch_loop_page:
  assumes "page_ok get i u p" "next_url (get_link (page_response p)) = Inr url'"
  shows "\<exists>l. fetch_loop (Suc fuel) get i (Some u) devices =
           map_option (after [u] [l]) (fetch_loop fuel get (Suc i) url' (devices @ page_records p))"
proof -
  from assms(1) obtain b where b: "json_body (page_response p) = Some b"
      "spec_page_records b = Some (page_records p)"
    by (auto simp: page_ok_def split: option.splits)
  have "absorb devices b = Extended (devices @ page_records p)"
    using b(2) by (rule absorb_spec)
  with assms b(1) show ?thesis
    by (auto simp: page_ok_def)
qed

lemma fetch_loop_served:
  "served get i u ps nxt \<Longrightarrow>
   \<exists>ls. fetch_loop (length ps + n) get i (Some u) devices =
     map_option (after (map page_url ps) ls)
       (fetch_loop n get (i + length ps) nxt (devices @ concat (map page_records ps)))"
proof (induction ps arbitrary: i u devices)
  case Nil
  then show ?case
    by (auto intro!: exI [of _ "[]"] simp: after_Nil option.map_ident cong: option.map_cong)
next
  case (Cons p ps)
  from Cons.prems have ok: "page_ok get i u p" by simp
  then have url: "page_url p = u" by (simp add: page_ok_def)
  show ?case
  proof (cases "spec_next_url (get_link (page_response p))")
    case NoNext
    with Cons.prems have e: "ps = []" "nxt = None" by simp_all
    from NoNext have "next_url (get_link (page_response p)) = Inr None"
      by (rule next_url_NoNext)
    from fetch_loop_page [OF ok this, of n devices] e url show ?thesis
      by auto
  next
    case Malformed
    with Cons.prems show ?thesis by simp
  next
    case (NextUrl v)
    with Cons.prems have v: "CHR ''<'' \<notin> set v" "served get (Suc i) v ps nxt" by simp_all
    from NextUrl v(1) have nu: "next_url (get_link (page_response p)) = Inr (Some v)"
      by (rule next_url_NextUrl)
    obtain l where l: "fetch_loop (Suc (length ps + n)) get i (Some u) devices =
           map_option (after [u] [l]) (fetch_loop (length ps + n) get (Suc i) (Some v) (devices @ page_records p))"
      using fetch_loop_page [OF ok nu] by blast
    obtain ls where ls: "fetch_loop (length ps + n) get (Suc i) (Some v) (devices @ page_records p) =
         map_option (after (map page_url ps) ls)
          (fetch_loop n get (Suc i + length ps) nxt ((devices @ page_records p) @ concat (map page_records ps)))"
      using Cons.IH [OF v(2)] by blast
    show ?thesis
      by (rule exI [of _ "l # ls"])
         (simp add: l ls url option.map_comp comp_def after_after del: fetch_loop.simps)
  qed
qed

lemma next_url_absent: "next_url [] = Inr None"
  by (simp add: next_url_def rel_next_def)

lemma devices_url_nonempty: "devices_url org_id \<noteq> []"
  by (simp add: devices_url_def)

text \<open>A run that ends within some fuel ends the same way with more.\<close>

lemma fetch_loop_more_fuel:
  "fetch_loop n get i url devices = Some r \<Longrightarrow> fetch_loop (n + k) get i url devices = Some r"
proof (induction n arbitrary: i url devices r)
  case 0
  then show ?case by simp
next
  case (Suc n)
  show ?case
  proof (cases "\<exists>u ds b resp. url = Some u \<and> u \<noteq> [] \<and> get i u = Some resp \<and> \<not> raises_for_status resp \<and>
          json_body resp = Some b \<and> absorb devices b = Extended ds \<and>
          (\<exists>v. next_url (get_link resp) = Inr v)")
    case True
    then obtain u ds b resp v where st: "url = Some u" "u \<noteq> []" "get i u = Some resp"
        "\<not> raises_for_status resp" "json_body resp = Some b" "absorb devices b = Extended ds"
        "next_url (get_link resp) = Inr v"
      by blast
    with Suc.prems obtain r' where r': "fetch_loop n get (Suc i) v ds = Some r'"
        and r: "r = after [u] [DebugResponseType (type_of b)] r'"
      by auto
    from Suc.IH [OF r'] have "fetch_loop (n + k) get (Suc i) v ds = Some r'" .
    with st r show ?thesis by simp
  next
    case False
    with Suc.prems show ?thesis
      by (auto split: option.splits if_splits absorbed.splits sum.splits)
  qed
qed

subsection \<open>Evaluating the example servers\<close>

lemma first_page_link: "spec_next_url (get_link first_page) = NextUrl page_two_url"
  by (simp add: spec_next_url_def get_link_def first_page_def page_two_url_def rel_next_def
        sublist_code Let_def)

lemma second_page_link: "spec_next_url (get_link second_page) = NoNext"
  by (simp add: spec_next_url_def get_link_def second_page_def rel_next_def)

lemma page_two_url_plain: "page_two_url \<noteq> [] \<and> CHR ''<'' \<notin> set page_two_url \<and> page_two_url \<noteq> devices_url ''o''"
  by (simp add: page_two_url_def devices_url_def)

section \<open>The claims\<close>

text \<open>
  Pagination over headers that the loop reads as the specification does. When the pages
  of a paginated sequence are served one after the other, each with an accepted status, a
  body of records and a \<open>Link\<close> header in which the first piece between commas that
  contains \<open>rel="next"\<close> holds the URL of the page after it in angle brackets, and the
  last page has no such entry, then
  \<open>get_all_devices\<close> returns (given fuel for one more iteration than there are pages) the
  records of all pages, concatenated in page order, and has issued one request for each
  page, in that order. In particular a single answer that is a bare sequence with no
  \<open>Link\<close> header is returned as it is after one request.
\<close>

theorem get_all_devices_pages:
  "(served (\<lambda>i u. get i u hdrs) 0 (devices_url org_id) ps None \<longrightarrow> length ps < fuel \<longrightarrow>
      (\<exists>run. get_all_devices fuel get org_id hdrs = Some run \<and>
             outcome run = Returned (concat (map page_records ps)) \<and>
             requests run = map page_url ps \<and>
             length (requests run) = length ps)) \<and>
   (get 0 (devices_url org_id) hdrs = Some \<lparr>status_code = s, json_body = Some (JList xs), link = None\<rparr> \<longrightarrow>
    \<not> (400 \<le> s \<and> s < 600) \<longrightarrow> 1 < fuel \<longrightarrow>
      (\<exists>run. get_all_devices fuel get org_id hdrs = Some run \<and>
             outcome run = Returned xs \<and>
             requests run = [devices_url org_id]))"
proof (intro conjI impI)
  assume sv: "served (\<lambda>i u. get i u hdrs) 0 (devices_url org_id) ps None" and "length ps < fuel"
  then obtain n where fuel: "fuel = length ps + Suc n"
    by (auto simp: less_iff_Suc_add)
  obtain ls where "fetch_loop (length ps + Suc n) (\<lambda>i u. get i u hdrs) 0 (Some (devices_url org_id)) [] =
     map_option (after (map page_url ps) ls)
       (fetch_loop (Suc n) (\<lambda>i u. get i u hdrs) (0 + length ps) None ([] @ concat (map page_records ps)))"
    using fetch_loop_served [OF sv] by blast
  then show "\<exists>run. get_all_devices fuel get org_id hdrs = Some run \<and>
             outcome run = Returned (concat (map page_records ps)) \<and>
             requests run = map page_url ps \<and>
             length (requests run) = length ps"
    by (simp add: get_all_devices_def fuel after_def)
next
  assume g: "get 0 (devices_url org_id) hdrs = Some \<lparr>status_code = s, json_body = Some (JList xs), link = None\<rparr>"
    and s: "\<not> (400 \<le> s \<and> s < 600)" and "1 < fuel"
  then obtain n where fuel: "fuel = Suc (Suc n)"
    by (auto simp: less_iff_Suc_add)
  from g s devices_url_nonempty [of org_id] show "\<exists>run. get_all_devices fuel get org_id hdrs = Some run \<and>
             outcome run = Returned xs \<and> requests run = [devices_url org_id]"
    by (simp add: get_all_devices_def fuel raises_for_status_def get_link_def next_url_absent after_def)
qed

theorem get_all_devices_pages_witness:
  "served (\<lambda>i u. two_pages i u []) 0 (devices_url ''o'')
     [\<lparr>page_url = devices_url ''o'', page_response = first_page, page_records = [ap1, ap2]\<rparr>,
      \<lparr>page_url = page_two_url, page_response = second_page, page_records = [sw1]\<rparr>] None \<and>
   (\<exists>run. get_all_devices 3 two_pages ''o'' [] = Some run \<and>
          outcome run = Returned [ap1, ap2, sw1] \<and>
          requests run = [devices_url ''o'', page_two_url] \<and>
          length (requests run) = 2) \<and>
   one_page 0 (devices_url ''o'') [] =
     Some \<lparr>status_code = 200, json_body = Some (JList [ap1, sw1]), link = None\<rparr> \<and>
   (\<exists>run. get_all_devices 2 one_page ''o'' [] = Some run \<and>
          outcome run = Returned [ap1, sw1] \<and>
          requests run = [devices_url ''o''])"
proof -
  let ?ps = "[\<lparr>page_url = devices_url ''o'', page_response = first_page, page_records = [ap1, ap2]\<rparr>,
              \<lparr>page_url = page_two_url, page_response = second_page, page_records = [sw1]\<rparr>]"
  have chain: "served (\<lambda>i u. two_pages i u []) 0 (devices_url ''o'') ?ps None"
    using page_two_url_plain
    by (simp add: first_page_link second_page_link page_ok_def two_pages_def raises_for_status_def
          devices_url_nonempty)
       (simp add: first_page_def second_page_def)
  have one: "one_page 0 (devices_url ''o'') [] =
     Some \<lparr>status_code = 200, json_body = Some (JList [ap1, sw1]), link = None\<rparr>"
    by (simp add: one_page_def)
  have two: "\<exists>run. get_all_devices 3 two_pages ''o'' [] = Some run \<and>
          outcome run = Returned [ap1, ap2, sw1] \<and>
          requests run = [devices_url ''o'', page_two_url] \<and>
          length (requests run) = 2"
    using chain
      get_all_devices_pages [where get = two_pages and hdrs = "[]" and org_id = "''o''"
                               and ps = ?ps and fuel = 3, THEN conjunct1]
    by (simp add: numeral_2_eq_2)
  have single: "\<exists>run. get_all_devices 2 one_page ''o'' [] = Some run \<and>
          outcome run = Returned [ap1, sw1] \<and>
          requests run = [devices_url ''o'']"
    using one
      get_all_devices_pages [where get = one_page and hdrs = "[]" and org_id = "''o''"
                               and s = 200 and xs = "[ap1, sw1]" and fuel = 2, THEN conjunct2]
    by simp
  from chain two one single show ?thesis by blast
qed

text \<open>
  C5. \<open>raise_for_status\<close> rejects the 4xx and 5xx codes only, so a 300 answer with a
  list in its body is taken as a page and the run returns normally.
\<close>

theorem status_300_is_accepted:
  "multiple_choices 0 (devices_url ''o'') [] =
     Some \<lparr>status_code = 300, json_body = Some (JList [ap1]), link = None\<rparr> \<and>
   get_all_devices 2 multiple_choices ''o'' [] =
     Some \<lparr>outcome = Returned [ap1], requests = [devices_url ''o''],
           printed = [DebugResponseType ListT]\<rparr>"
  by (simp add: get_all_devices_def multiple_choices_def raises_for_status_def get_link_def
        next_url_absent after_def devices_url_nonempty numeral_2_eq_2)

text \<open>
  C5, as the code has it. After any number of pages served, a request that fails or whose
  answer has a 4xx or 5xx status ends the run with \<open>sys.exit(1)\<close>: it is the last
  request issued, the error message is the last line printed, and no list of devices is
  returned.
\<close>

theorem request_failure_exits:
  "served (\<lambda>i u. get i u hdrs) 0 (devices_url org_id) ps (Some v) \<Longrightarrow>
   v \<noteq> [] \<Longrightarrow>
   (case get (length ps) v hdrs of None \<Rightarrow> True | Some r \<Rightarrow> raises_for_status r) \<Longrightarrow>
   length ps < fuel \<Longrightarrow>
   \<exists>run. get_all_devices fuel get org_id hdrs = Some run \<and>
         outcome run = Exited 1 \<and>
         requests run = map page_url ps @ [v] \<and>
         last (printed run) = ErrorFetchingDevices"
proof -
  assume sv: "served (\<lambda>i u. get i u hdrs) 0 (devices_url org_id) ps (Some v)"
    and v: "v \<noteq> []"
    and bad: "case get (length ps) v hdrs of None \<Rightarrow> True | Some r \<Rightarrow> raises_for_status r"
    and "length ps < fuel"
  then obtain n where fuel: "fuel = length ps + Suc n"
    by (auto simp: less_iff_Suc_add)
  obtain ls where run: "fetch_loop (length ps + Suc n) (\<lambda>i u. get i u hdrs) 0 (Some (devices_url org_id)) [] =
     map_option (after (map page_url ps) ls)
       (fetch_loop (Suc n) (\<lambda>i u. get i u hdrs) (0 + length ps) (Some v) ([] @ concat (map page_records ps)))"
    using fetch_loop_served [OF sv] by blast
  have "fetch_loop (Suc n) (\<lambda>i u. get i u hdrs) (0 + length ps) (Some v) ([] @ concat (map page_records ps)) =
      Some \<lparr>outcome = Exited 1, requests = [v], printed = [ErrorFetchingDevices]\<rparr>"
    using v bad by (simp split: option.splits)
  with run show ?thesis
    by (simp add: get_all_devices_def fuel after_def del: fetch_loop.simps)
qed

theorem request_failure_exits_witness:
  "served (\<lambda>i u. second_unavailable i u []) 0 (devices_url ''o'')
     [\<lparr>page_url = devices_url ''o'', page_response = first_page, page_records = [ap1, ap2]\<rparr>]
     (Some page_two_url) \<and>
   second_unavailable 1 page_two_url [] = Some \<lparr>status_code = 503, json_body = None, link = None\<rparr> \<and>
   (\<exists>run. get_all_devices 2 second_unavailable ''o'' [] = Some run \<and>
         outcome run = Exited 1 \<and>
         requests run = [devices_url ''o'', page_two_url] \<and>
         last (printed run) = ErrorFetchingDevices)"
proof -
  let ?ps = "[\<lparr>page_url = devices_url ''o'', page_response = first_page, page_records = [ap1, ap2]\<rparr>]"
  have chain: "served (\<lambda>i u. second_unavailable i u []) 0 (devices_url ''o'') ?ps (Some page_two_url)"
    using page_two_url_plain
    by (simp add: first_page_link page_ok_def second_unavailable_def raises_for_status_def
          devices_url_nonempty)
       (simp add: first_page_def)
  have second: "second_unavailable 1 page_two_url [] =
      Some \<lparr>status_code = 503, json_body = None, link = None\<rparr>"
    using page_two_url_plain by (simp add: second_unavailable_def)
  have "\<exists>run. get_all_devices 2 second_unavailable ''o'' [] = Some run \<and>
         outcome run = Exited 1 \<and>
         requests run = [devices_url ''o'', page_two_url] \<and>
         last (printed run) = ErrorFetchingDevices"
    using request_failure_exits [where get = second_unavailable and hdrs = "[]" and org_id = "''o''"
            and ps = ?ps and v = page_two_url and fuel = 2, OF chain]
      second page_two_url_plain
    by (simp add: raises_for_status_def)
  with chain second show ?thesis by blast
qed

lemma absorb_other: "type_of b \<noteq> ListT \<Longrightarrow> type_of b \<noteq> DictT \<Longrightarrow> absorb devices b = Stop"
  by (cases b) simp_all

lemma fetch_loop_stop:
  "u \<noteq> [] \<Longrightarrow> get i u = Some r \<Longrightarrow> \<not> raises_for_status r \<Longrightarrow> json_body r = Some b \<Longrightarrow>
   type_of b \<noteq> ListT \<Longrightarrow> type_of b \<noteq> DictT \<Longrightarrow>
   fetch_loop (Suc fuel) get i (Some u) devices =
     Some \<lparr>outcome = Returned devices, requests = [u],
           printed = [DebugResponseType (type_of b), UnexpectedResponseFormat b]\<rparr>"
  by (simp add: absorb_other)

text \<open>
  C3. A first page whose body is a string, with a \<open>Link\<close> header that announces a
  second page holding a record: the run prints the message and returns at once, empty.
  The second page is never requested.
\<close>

theorem unexpected_page_not_skipped:
  "notice_first 0 (devices_url ''o'') [] = Some notice_page \<and>
   json_body notice_page = Some (JStr ''maintenance'') \<and>
   next_url (get_link notice_page) = Inr (Some page_two_url) \<and>
   notice_first 1 page_two_url [] = Some second_page \<and>
   get_all_devices 3 notice_first ''o'' [] =
     Some \<lparr>outcome = Returned [], requests = [devices_url ''o''],
           printed = [DebugResponseType StrT, UnexpectedResponseFormat (JStr ''maintenance'')]\<rparr>"
proof -
  have "get_link notice_page = get_link first_page"
    by (simp add: get_link_def notice_page_def first_page_def)
  then have nxt: "next_url (get_link notice_page) = Inr (Some page_two_url)"
    using first_page_link page_two_url_plain by (simp add: next_url_NextUrl)
  have run: "get_all_devices 3 notice_first ''o'' [] =
     Some \<lparr>outcome = Returned [], requests = [devices_url ''o''],
           printed = [DebugResponseType StrT, UnexpectedResponseFormat (JStr ''maintenance'')]\<rparr>"
    by (simp add: get_all_devices_def notice_first_def notice_page_def raises_for_status_def
          devices_url_nonempty numeral_3_eq_3)
  from nxt run page_two_url_plain show ?thesis
    by (simp add: notice_first_def) (simp add: notice_page_def)
qed

text \<open>
  C3, as the code has it. After any number of pages served, a page whose body is neither a
  sequence nor a mapping makes the run print the unexpected-format message and leave the
  loop: its request is the last one, whatever its \<open>Link\<close> header says, and the devices
  of the pages before it are returned.
\<close>

theorem unexpected_page_ends_pagination:
  "served (\<lambda>i u. get i u hdrs) 0 (devices_url org_id) ps (Some v) \<Longrightarrow>
   v \<noteq> [] \<Longrightarrow>
   get (length ps) v hdrs = Some r \<Longrightarrow> \<not> raises_for_status r \<Longrightarrow> json_body r = Some b \<Longrightarrow>
   type_of b \<noteq> ListT \<Longrightarrow> type_of b \<noteq> DictT \<Longrightarrow>
   length ps < fuel \<Longrightarrow>
   \<exists>run. get_all_devices fuel get org_id hdrs = Some run \<and>
         outcome run = Returned (concat (map page_records ps)) \<and>
         requests run = map page_url ps @ [v] \<and>
         last (printed run) = UnexpectedResponseFormat b"
proof -
  assume sv: "served (\<lambda>i u. get i u hdrs) 0 (devices_url org_id) ps (Some v)"
    and v: "v \<noteq> []"
    and r: "get (length ps) v hdrs = Some r" "\<not> raises_for_status r" "json_body r = Some b"
    and b: "type_of b \<noteq> ListT" "type_of b \<noteq> DictT"
    and "length ps < fuel"
  then obtain n where fuel: "fuel = length ps + Suc n"
    by (auto simp: less_iff_Suc_add)
  obtain ls where run: "fetch_loop (length ps + Suc n) (\<lambda>i u. get i u hdrs) 0 (Some (devices_url org_id)) [] =
     map_option (after (map page_url ps) ls)
       (fetch_loop (Suc n) (\<lambda>i u. get i u hdrs) (0 + length ps) (Some v) ([] @ concat (map page_records ps)))"
    using fetch_loop_served [OF sv] by blast
  have "fetch_loop (Suc n) (\<lambda>i u. get i u hdrs) (0 + length ps) (Some v) ([] @ concat (map page_records ps)) =
      Some \<lparr>outcome = Returned ([] @ concat (map page_records ps)), requests = [v],
            printed = [DebugResponseType (type_of b), UnexpectedResponseFormat b]\<rparr>"
    using v r b by (intro fetch_loop_stop) simp_all
  with run show ?thesis
    by (simp add: get_all_devices_def fuel after_def del: fetch_loop.simps)
qed

theorem unexpected_page_ends_pagination_witness:
  "served (\<lambda>i u. number_second i u []) 0 (devices_url ''o'')
     [\<lparr>page_url = devices_url ''o'', page_response = first_page, page_records = [ap1, ap2]\<rparr>]
     (Some page_two_url) \<and>
   number_second 1 page_two_url [] = Some \<lparr>status_code = 200, json_body = Some (JNum 7), link = None\<rparr> \<and>
   (\<exists>run. get_all_devices 2 number_second ''o'' [] = Some run \<and>
         outcome run = Returned [ap1, ap2] \<and>
         requests run = [devices_url ''o'', page_two_url] \<and>
         last (printed run) = UnexpectedResponseFormat (JNum 7))"
proof -
  let ?ps = "[\<lparr>page_url = devices_url ''o'', page_response = first_page, page_records = [ap1, ap2]\<rparr>]"
  have chain: "served (\<lambda>i u. number_second i u []) 0 (devices_url ''o'') ?ps (Some page_two_url)"
    using page_two_url_plain
    by (simp add: first_page_link page_ok_def number_second_def raises_for_status_def
          devices_url_nonempty)
       (simp add: first_page_def)
  have second: "number_second 1 page_two_url [] =
      Some \<lparr>status_code = 200, json_body = Some (JNum 7), link = None\<rparr>"
    using page_two_url_plain by (simp add: number_second_def)
  have "\<exists>run. get_all_devices 2 number_second ''o'' [] = Some run \<and>
         outcome run = Returned [ap1, ap2] \<and>
         requests run = [devices_url ''o'', page_two_url] \<and>
         last (printed run) = UnexpectedResponseFormat (JNum 7)"
    using unexpected_page_ends_pagination [where get = number_second and hdrs = "[]"
            and org_id = "''o''" and ps = ?ps and v = page_two_url and fuel = 2
            and r = "\<lparr>status_code = 200, json_body = Some (JNum 7), link = None\<rparr>"
            and b = "JNum 7", OF chain]
      second page_two_url_plain
    by (simp add: raises_for_status_def)
  with chain second show ?thesis by blast
qed

text \<open>
  C2. An answer whose \<open>Link\<close> header is the marker alone, with no URL in angle
  brackets: \<open>link.split('<')[1]\<close> raises \<open>IndexError\<close>, which the handler for
  \<open>RequestException\<close> does not catch, so the call ends with the exception instead of
  returning the record it has read.
\<close>

theorem marker_without_url_raises:
  "get_all_devices 1 marker_only ''o'' [] =
     Some \<lparr>outcome = Raised IndexError, requests = [devices_url ''o''],
           printed = [DebugResponseType ListT]\<rparr>"
  by (simp add: get_all_devices_def marker_only_def raises_for_status_def get_link_def
        devices_url_nonempty next_url_def rel_next_def sublist_code)

lemma fetch_loop_linked:
  "linked get i u rs \<Longrightarrow> length rs < fuel \<Longrightarrow>
   \<exists>run. fetch_loop fuel get i (Some u) devices = Some run \<and> length (requests run) \<le> length rs"
proof (induction rs arbitrary: i u devices fuel)
  case Nil
  then show ?case by simp
next
  case (Cons r rs)
  from Cons.prems(2) obtain n where fuel: "fuel = Suc n" and n: "length rs < n"
    by (cases fuel) auto
  from Cons.prems(1) have get: "get i u = Some r" by simp
  show ?case
  proof (cases "spec_next_url (get_link r)")
    case NoNext
    then have nu: "next_url (get_link r) = Inr None" by (rule next_url_NoNext)
    from n obtain k where k: "n = Suc k"
      by (cases n) auto
    show ?thesis
      unfolding fuel k
      by (auto simp: get nu after_def split: option.splits absorbed.splits)
  next
    case Malformed
    with Cons.prems(1) show ?thesis by simp
  next
    case (NextUrl v)
    with Cons.prems(1) have v: "CHR ''<'' \<notin> set v" "linked get (Suc i) v rs" by simp_all
    from NextUrl v(1) have nu: "next_url (get_link r) = Inr (Some v)" by (rule next_url_NextUrl)
    have step: "\<exists>run. fetch_loop n get (Suc i) (Some v) ds = Some run \<and> length (requests run) \<le> length rs" for ds
      using Cons.IH [OF v(2) n] by blast
    show ?thesis
    proof (cases "u = [] \<or> raises_for_status r \<or> json_body r = None")
      case True
      then show ?thesis by (auto simp: get fuel)
    next
      case False
      then obtain b where b: "json_body r = Some b" by auto
      show ?thesis
      proof (cases "absorb devices b")
        case (Extended ds)
        obtain run where "fetch_loop n get (Suc i) (Some v) ds = Some run"
            "length (requests run) \<le> length rs"
          using step by blast
        with False b Extended show ?thesis
          by (simp add: get nu after_def fuel)
      qed (use False b in \<open>simp_all add: get fuel\<close>)
    qed
  qed
qed

lemma cyclic_link:
  "next_url ''<https://api.mist.com/api/v1/orgs/o/devices>; rel=\"next\"'' = Inr (Some (devices_url ''o''))"
  by (simp add: next_url_def rel_next_def sublist_code devices_url_def)

lemma fetch_loop_cyclic:
  "fetch_loop n (\<lambda>i u. cyclic i u hdrs) i (Some (devices_url ''o'')) devices = None"
proof (induction n arbitrary: i devices)
  case 0
  show ?case by simp
next
  case (Suc n)
  then show ?case
    by (simp add: cyclic_def raises_for_status_def get_link_def cyclic_link devices_url_nonempty)
qed

text \<open>
  C6. The loop keeps no record of the URLs it has visited. When the answers form a finite
  chain, each announcing the next and the last one announcing none, the run ends, whatever
  the statuses and bodies, with at most one request for each answer. When every answer
  announces the URL the run started from, as \<open>cyclic\<close> does, no amount of fuel is
  enough: the run never ends.
\<close>

theorem terminates_unless_links_cycle:
  "(linked (\<lambda>i u. get i u hdrs) 0 (devices_url org_id) rs \<longrightarrow> length rs < fuel \<longrightarrow>
      (\<exists>run. get_all_devices fuel get org_id hdrs = Some run \<and>
             length (requests run) \<le> length rs)) \<and>
   (\<forall>n. get_all_devices n cyclic ''o'' hdrs = None) \<and>
   (\<forall>i u. \<exists>r. cyclic i u hdrs = Some r \<and>
            next_url (get_link r) = Inr (Some (devices_url ''o'')))"
proof (intro conjI impI allI)
  assume "linked (\<lambda>i u. get i u hdrs) 0 (devices_url org_id) rs" "length rs < fuel"
  then show "\<exists>run. get_all_devices fuel get org_id hdrs = Some run \<and>
             length (requests run) \<le> length rs"
    unfolding get_all_devices_def by (rule fetch_loop_linked)
next
  fix n
  show "get_all_devices n cyclic ''o'' hdrs = None"
    unfolding get_all_devices_def by (rule fetch_loop_cyclic)
next
  fix i u
  show "\<exists>r. cyclic i u hdrs = Some r \<and> next_url (get_link r) = Inr (Some (devices_url ''o''))"
    by (simp add: cyclic_def get_link_def cyclic_link)
qed

theorem terminates_unless_links_cycle_witness:
  "linked (\<lambda>i u. two_pages i u []) 0 (devices_url ''o'') [first_page, second_page] \<and>
   (\<exists>run. get_all_devices 3 two_pages ''o'' [] = Some run \<and> length (requests run) \<le> 2)"
proof -
  have chain: "linked (\<lambda>i u. two_pages i u []) 0 (devices_url ''o'') [first_page, second_page]"
    using page_two_url_plain
    by (simp add: first_page_link second_page_link two_pages_def)
  have "\<exists>run. get_all_devices 3 two_pages ''o'' [] = Some run \<and>
          length (requests run) \<le> length [first_page, second_page]"
    using chain
      terminates_unless_links_cycle [where get = two_pages and hdrs = "[]" and org_id = "''o''"
          and rs = "[first_page, second_page]" and fuel = 3, THEN conjunct1]
    by simp
  with chain show ?thesis by (simp add: numeral_2_eq_2)
qed

subsection \<open>A run through a given page\<close>

lemma fetch_loop_page_line:
  assumes "page_ok get i u p" "next_url (get_link (page_response p)) = Inr url'"
  shows "fetch_loop (Suc fuel) get i (Some u) devices =
           map_option (after [u] [page_line p]) (fetch_loop fuel get (Suc i) url' (devices @ page_records p))"
proof -
  from assms(1) obtain b where b: "json_body (page_response p) = Some b"
      "spec_page_records b = Some (page_records p)"
    by (auto simp: page_ok_def split: option.splits)
  have "absorb devices b = Extended (devices @ page_records p)"
    using b(2) by (rule absorb_spec)
  with assms b(1) show ?thesis
    by (auto simp: page_ok_def page_line_def)
qed

lemma fetch_loop_served_lines:
  "served get i u ps nxt \<Longrightarrow>
   fetch_loop (length ps + n) get i (Some u) devices =
     map_option (after (map page_url ps) (map page_line ps))
       (fetch_loop n get (i + length ps) nxt (devices @ concat (map page_records ps)))"
proof (induction ps arbitrary: i u devices)
  case Nil
  then show ?case
    by (simp add: after_Nil option.map_ident cong: option.map_cong)
next
  case (Cons p ps)
  from Cons.prems have ok: "page_ok get i u p" by simp
  then have url: "page_url p = u" by (simp add: page_ok_def)
  show ?case
  proof (cases "spec_next_url (get_link (page_response p))")
    case NoNext
    with Cons.prems have e: "ps = []" "nxt = None" by simp_all
    from NoNext have "next_url (get_link (page_response p)) = Inr None"
      by (rule next_url_NoNext)
    from fetch_loop_page_line [OF ok this, of n devices] e url show ?thesis
      by simp
  next
    case Malformed
    with Cons.prems show ?thesis by simp
  next
    case (NextUrl v)
    with Cons.prems have v: "CHR ''<'' \<notin> set v" "served get (Suc i) v ps nxt" by simp_all
    from NextUrl v(1) have nu: "next_url (get_link (page_response p)) = Inr (Some v)"
      by (rule next_url_NextUrl)
    have l: "fetch_loop (Suc (length ps + n)) get i (Some u) devices =
           map_option (after [u] [page_line p])
             (fetch_loop (length ps + n) get (Suc i) (Some v) (devices @ page_records p))"
      using ok nu by (rule fetch_loop_page_line)
    have ls: "fetch_loop (length ps + n) get (Suc i) (Some v) (devices @ page_records p) =
         map_option (after (map page_url ps) (map page_line ps))
          (fetch_loop n get (Suc i + length ps) nxt ((devices @ page_records p) @ concat (map page_records ps)))"
      using v(2) by (rule Cons.IH)
    show ?thesis
      by (simp add: l ls url option.map_comp comp_def after_after del: fetch_loop.simps)
  qed
qed

lemma run_through_page:
  assumes prefix: "served get 0 u ps (Some v)"
    and v: "v \<noteq> []"
    and r: "get (length ps) v = Some r" "\<not> raises_for_status r" "json_body r = Some b"
    and xs: "\<And>A. absorb A b = Extended (A @ xs)"
    and suffix: "onward get (Suc (length ps)) r qs"
    and fuel: "length ps + length qs + 1 < fuel"
  shows "fetch_loop fuel get 0 (Some u) [] =
     Some \<lparr>outcome = Returned (concat (map page_records ps) @ xs @ concat (map page_records qs)),
           requests = map page_url ps @ v # map page_url qs,
           printed = map page_line ps @ DebugResponseType (type_of b) # map page_line qs\<rparr>"
proof -
  from fuel obtain n where n: "fuel = length ps + Suc (length qs + Suc n)"
    by (auto simp: less_iff_Suc_add)
  let ?A = "concat (map page_records ps)"
  have one: "fetch_loop fuel get 0 (Some u) [] =
      map_option (after (map page_url ps) (map page_line ps))
        (fetch_loop (Suc (length qs + Suc n)) get (length ps) (Some v) ?A)"
    unfolding n using fetch_loop_served_lines [OF prefix, of "Suc (length qs + Suc n)" "[]"]
    by simp
  have rest: "fetch_loop (Suc (length qs + Suc n)) get (length ps) (Some v) ?A =
      Some \<lparr>outcome = Returned (?A @ xs @ concat (map page_records qs)),
            requests = v # map page_url qs,
            printed = DebugResponseType (type_of b) # map page_line qs\<rparr>"
  proof (cases "spec_next_url (get_link r)")
    case NoNext
    with suffix have q: "qs = []" by (simp add: onward_def)
    from NoNext have "next_url (get_link r) = Inr None" by (rule next_url_NoNext)
    with v r xs q show ?thesis by (simp add: after_def)
  next
    case Malformed
    with suffix show ?thesis by (simp add: onward_def)
  next
    case (NextUrl w)
    with suffix have w: "CHR ''<'' \<notin> set w" "served get (Suc (length ps)) w qs None"
      by (simp_all add: onward_def)
    from NextUrl w(1) have nu: "next_url (get_link r) = Inr (Some w)" by (rule next_url_NextUrl)
    have "fetch_loop (length qs + Suc n) get (Suc (length ps)) (Some w) (?A @ xs) =
        map_option (after (map page_url qs) (map page_line qs))
          (fetch_loop (Suc n) get (Suc (length ps) + length qs) None ((?A @ xs) @ concat (map page_records qs)))"
      using w(2) by (rule fetch_loop_served_lines)
    with v r xs nu show ?thesis by (simp add: after_def)
  qed
  show ?thesis
    unfolding one rest by (simp add: after_def)
qed

lemma page_three_url_plain:
  "page_three_url \<noteq> [] \<and> CHR ''<'' \<notin> set page_three_url \<and>
   page_three_url \<noteq> devices_url ''o'' \<and> page_three_url \<noteq> page_two_url"
  by (simp add: page_three_url_def page_two_url_def devices_url_def)

lemma middle_page_link: "spec_next_url (get_link (middle_page b)) = NextUrl page_three_url"
  by (simp add: spec_next_url_def get_link_def middle_page_def page_three_url_def rel_next_def
        sublist_code Let_def)

lemma third_page_link: "spec_next_url (get_link third_page) = NoNext"
  by (simp add: spec_next_url_def get_link_def third_page_def rel_next_def)

lemma three_pages_prefix:
  "served (\<lambda>i u. three_pages b i u []) 0 (devices_url ''o'')
     [\<lparr>page_url = devices_url ''o'', page_response = first_page, page_records = [ap1, ap2]\<rparr>]
     (Some page_two_url)"
  using page_two_url_plain
  by (simp add: first_page_link page_ok_def three_pages_def raises_for_status_def
        devices_url_nonempty)
     (simp add: first_page_def)

lemma three_pages_middle: "three_pages b i page_two_url [] = Some (middle_page b)"
  using page_two_url_plain by (simp add: three_pages_def)

lemma three_pages_onward:
  "onward (\<lambda>i u. three_pages b i u []) n (middle_page b)
     [\<lparr>page_url = page_three_url, page_response = third_page, page_records = [sw1]\<rparr>]"
  using page_three_url_plain
  by (simp add: onward_def middle_page_link third_page_link page_ok_def three_pages_def
        raises_for_status_def)
     (simp add: third_page_def)

lemma middle_page_fields:
  "\<not> raises_for_status (middle_page b)" "json_body (middle_page b) = Some b"
  by (simp_all add: middle_page_def raises_for_status_def)

lemma example_page_lines:
  "page_line \<lparr>page_url = u, page_response = first_page, page_records = xs\<rparr> = DebugResponseType ListT"
  "page_line \<lparr>page_url = u, page_response = third_page, page_records = xs\<rparr> = DebugResponseType ListT"
  by (simp_all add: page_line_def first_page_def third_page_def)

text \<open>
  C1. A first page whose \<open>Link\<close> header holds, in angle brackets and with
  \<open>rel="next"\<close>, the URL of a second page that exists; the URL has a comma in its query.
  The loop splits the header at the comma, finds the marker in a piece without \<open><\<close>,
  and \<open>link.split('<')[1]\<close> raises \<open>IndexError\<close>: one request is issued, the second
  page is never fetched and nothing is returned.
\<close>

theorem comma_in_next_url_raises:
  "comma_link 0 (devices_url ''o'') [] = Some comma_page \<and>
   link comma_page = Some (''<'' @ fields_url @ ''>; rel=\"next\"'') \<and>
   comma_link 1 fields_url [] = Some second_page \<and>
   get_all_devices 3 comma_link ''o'' [] =
     Some \<lparr>outcome = Raised IndexError, requests = [devices_url ''o''],
           printed = [DebugResponseType ListT]\<rparr>"
proof -
  have "next_url (get_link comma_page) = Inl IndexError"
    by (simp add: next_url_def get_link_def comma_page_def fields_url_def rel_next_def sublist_code)
  then have "get_all_devices 3 comma_link ''o'' [] =
     Some \<lparr>outcome = Raised IndexError, requests = [devices_url ''o''],
           printed = [DebugResponseType ListT]\<rparr>"
    by (simp add: get_all_devices_def comma_link_def devices_url_nonempty numeral_3_eq_3)
       (simp add: comma_page_def raises_for_status_def)
  moreover have "fields_url \<noteq> devices_url ''o''"
    by (simp add: fields_url_def devices_url_def)
  ultimately show ?thesis
    by (simp add: comma_link_def) (simp add: comma_page_def)
qed





text \<open>
  C10. Take any page reached after a sequence of pages served and leading on to any
  further pages served, whose body is a mapping. When the value at \<open>data\<close> (or at
  \<open>results\<close> when \<open>data\<close> is absent) is a string, \<open>get_all_devices\<close> returns, between
  the records of the pages before and after, one record for each character of the string,
  each a string of that one character; when it is a mapping, one record for each of its
  keys. The page is not skipped and no unexpected-format message is printed for it.
\<close>

theorem iterable_value_elements_appended:
  "served (\<lambda>i u. get i u hdrs) 0 (devices_url org_id) ps (Some v) \<Longrightarrow> v \<noteq> [] \<Longrightarrow>
   get (length ps) v hdrs = Some r \<Longrightarrow> \<not> raises_for_status r \<Longrightarrow>
   json_body r = Some (JDict m) \<Longrightarrow>
   onward (\<lambda>i u. get i u hdrs) (Suc (length ps)) r qs \<Longrightarrow> length ps + length qs + 1 < fuel \<Longrightarrow>
   (map_of m ''data'' = Some (JStr s) \<or> map_of m ''data'' = None \<and> map_of m ''results'' = Some (JStr s) \<longrightarrow>
      get_all_devices fuel get org_id hdrs =
        Some \<lparr>outcome = Returned (concat (map page_records ps) @ map (\<lambda>c. JStr [c]) s @
                                  concat (map page_records qs)),
              requests = map page_url ps @ v # map page_url qs,
              printed = map page_line ps @ DebugResponseType DictT # map page_line qs\<rparr>) \<and>
   (map_of m ''data'' = Some (JDict d) \<or> map_of m ''data'' = None \<and> map_of m ''results'' = Some (JDict d) \<longrightarrow>
      get_all_devices fuel get org_id hdrs =
        Some \<lparr>outcome = Returned (concat (map page_records ps) @ map (\<lambda>kv. JStr (fst kv)) d @
                                  concat (map page_records qs)),
              requests = map page_url ps @ v # map page_url qs,
              printed = map page_line ps @ DebugResponseType DictT # map page_line qs\<rparr>)"
proof -
  assume prefix: "served (\<lambda>i u. get i u hdrs) 0 (devices_url org_id) ps (Some v)"
    and v: "v \<noteq> []"
    and r: "get (length ps) v hdrs = Some r" "\<not> raises_for_status r" "json_body r = Some (JDict m)"
    and suffix: "onward (\<lambda>i u. get i u hdrs) (Suc (length ps)) r qs"
    and fuel: "length ps + length qs + 1 < fuel"
  have through: "get_all_devices fuel get org_id hdrs =
        Some \<lparr>outcome = Returned (concat (map page_records ps) @ ys @ concat (map page_records qs)),
              requests = map page_url ps @ v # map page_url qs,
              printed = map page_line ps @ DebugResponseType DictT # map page_line qs\<rparr>"
    if "\<And>A. absorb A (JDict m) = Extended (A @ ys)" for ys
    unfolding get_all_devices_def
    using run_through_page [OF prefix v r that suffix fuel] by simp
  show ?thesis
  proof (intro conjI impI)
    assume "map_of m ''data'' = Some (JStr s) \<or> map_of m ''data'' = None \<and> map_of m ''results'' = Some (JStr s)"
    then show "get_all_devices fuel get org_id hdrs =
        Some \<lparr>outcome = Returned (concat (map page_records ps) @ map (\<lambda>c. JStr [c]) s @
                                  concat (map page_records qs)),
              requests = map page_url ps @ v # map page_url qs,
              printed = map page_line ps @ DebugResponseType DictT # map page_line qs\<rparr>"
      by (intro through) (auto simp: list_extend_def)
  next
    assume "map_of m ''data'' = Some (JDict d) \<or> map_of m ''data'' = None \<and> map_of m ''results'' = Some (JDict d)"
    then show "get_all_devices fuel get org_id hdrs =
        Some \<lparr>outcome = Returned (concat (map page_records ps) @ map (\<lambda>kv. JStr (fst kv)) d @
                                  concat (map page_records qs)),
              requests = map page_url ps @ v # map page_url qs,
              printed = map page_line ps @ DebugResponseType DictT # map page_line qs\<rparr>"
      by (intro through) (auto simp: list_extend_def)
  qed
qed

theorem iterable_value_elements_appended_witness:
  "served (\<lambda>i u. three_pages (JDict [(''data'', JStr ''ab'')]) i u []) 0 (devices_url ''o'')
     [\<lparr>page_url = devices_url ''o'', page_response = first_page, page_records = [ap1, ap2]\<rparr>]
     (Some page_two_url) \<and>
   onward (\<lambda>i u. three_pages (JDict [(''data'', JStr ''ab'')]) i u []) 2
     (middle_page (JDict [(''data'', JStr ''ab'')]))
     [\<lparr>page_url = page_three_url, page_response = third_page, page_records = [sw1]\<rparr>] \<and>
   get_all_devices 4 (three_pages (JDict [(''data'', JStr ''ab'')])) ''o'' [] =
     Some \<lparr>outcome = Returned [ap1, ap2, JStr ''a'', JStr ''b'', sw1],
           requests = [devices_url ''o'', page_two_url, page_three_url],
           printed = [DebugResponseType ListT, DebugResponseType DictT, DebugResponseType ListT]\<rparr> \<and>
   get_all_devices 4 (three_pages (JDict [(''results'', JDict [(''id'', JNum 1), (''name'', JNull)])])) ''o'' [] =
     Some \<lparr>outcome = Returned [ap1, ap2, JStr ''id'', JStr ''name'', sw1],
           requests = [devices_url ''o'', page_two_url, page_three_url],
           printed = [DebugResponseType ListT, DebugResponseType DictT, DebugResponseType ListT]\<rparr>"
proof -
  have v: "page_two_url \<noteq> []" using page_two_url_plain by simp
  note facts = three_pages_prefix v three_pages_middle middle_page_fields three_pages_onward
  have a: "get_all_devices 4 (three_pages (JDict [(''data'', JStr ''ab'')])) ''o'' [] =
     Some \<lparr>outcome = Returned [ap1, ap2, JStr ''a'', JStr ''b'', sw1],
           requests = [devices_url ''o'', page_two_url, page_three_url],
           printed = [DebugResponseType ListT, DebugResponseType DictT, DebugResponseType ListT]\<rparr>"
    using iterable_value_elements_appended [where get = "three_pages (JDict [(''data'', JStr ''ab'')])"
        and hdrs = "[]" and org_id = "''o''"
        and ps = "[\<lparr>page_url = devices_url ''o'', page_response = first_page, page_records = [ap1, ap2]\<rparr>]"
        and v = page_two_url and r = "middle_page (JDict [(''data'', JStr ''ab'')])"
        and m = "[(''data'', JStr ''ab'')]" and s = "''ab''"
        and qs = "[\<lparr>page_url = page_three_url, page_response = third_page, page_records = [sw1]\<rparr>]"
        and fuel = 4, THEN conjunct1]
      facts
    by (simp add: example_page_lines)
  have b: "get_all_devices 4 (three_pages (JDict [(''results'', JDict [(''id'', JNum 1), (''name'', JNull)])])) ''o'' [] =
     Some \<lparr>outcome = Returned [ap1, ap2, JStr ''id'', JStr ''name'', sw1],
           requests = [devices_url ''o'', page_two_url, page_three_url],
           printed = [DebugResponseType ListT, DebugResponseType DictT, DebugResponseType ListT]\<rparr>"
    using iterable_value_elements_appended [where
            get = "three_pages (JDict [(''results'', JDict [(''id'', JNum 1), (''name'', JNull)])])"
        and hdrs = "[]" and org_id = "''o''"
        and ps = "[\<lparr>page_url = devices_url ''o'', page_response = first_page, page_records = [ap1, ap2]\<rparr>]"
        and v = page_two_url
        and r = "middle_page (JDict [(''results'', JDict [(''id'', JNum 1), (''name'', JNull)])])"
        and m = "[(''results'', JDict [(''id'', JNum 1), (''name'', JNull)])]"
        and d = "[(''id'', JNum 1), (''name'', JNull)]"
        and qs = "[\<lparr>page_url = page_three_url, page_response = third_page, page_records = [sw1]\<rparr>]"
        and fuel = 4, THEN conjunct2]
      facts
    by (simp add: example_page_lines)
  from three_pages_prefix three_pages_onward a b show ?thesis by blast
qed

subsection \<open>Grouping and display\<close>

lemma first_seen_set: "set (first_seen xs) = set xs"
  by (induction xs) auto

lemma first_seen_distinct: "distinct (first_seen xs)"
  by (induction xs) (auto simp: first_seen_set)

lemma first_seen_snoc:
  "first_seen (xs @ [x]) = (if x \<in> set xs then first_seen xs else first_seen xs @ [x])"
proof (induction xs)
  case Nil
  show ?case by simp
next
  case (Cons a xs)
  then show ?case
    by (auto simp: first_seen_set)
qed

lemma key_eq_str: "key_eq k (JStr t) = (k = JStr t)"
  by (cases k) simp_all

lemma append_to_keys:
  "distinct ks \<Longrightarrow>
   append_to (JStr t) d (map (\<lambda>k. (JStr k, f k)) ks) =
     (if t \<in> set ks
      then map (\<lambda>k. (JStr k, if k = t then f k @ [d] else f k)) ks
      else map (\<lambda>k. (JStr k, f k)) ks @ [(JStr t, [d])])"
  by (induction ks) (auto simp: key_eq_str)

lemma append_to_grouped:
  "append_to (JStr (type_name d)) d (as_groups (grouped ds)) = as_groups (grouped (ds @ [d]))"
proof -
  let ?ks = "first_seen (map type_name ds)"
  let ?f = "\<lambda>t. filter (\<lambda>d. type_name d = t) ds"
  have g: "as_groups (grouped ds) = map (\<lambda>k. (JStr k, ?f k)) ?ks"
    by (simp add: as_groups_def grouped_def comp_def)
  show ?thesis
  proof (cases "type_name d \<in> set (map type_name ds)")
    case True
    then show ?thesis
      unfolding g
      by (subst append_to_keys)
         (auto simp: first_seen_distinct first_seen_set first_seen_snoc as_groups_def grouped_def comp_def)
  next
    case False
    then have "\<forall>e\<in>set ds. type_name e \<noteq> type_name d"
      by (metis imageI list.set_map)
    then have "filter (\<lambda>e. type_name e = type_name d) ds = []"
      by (simp add: filter_empty_conv)
    with False show ?thesis
      unfolding g
      by (subst append_to_keys)
         (auto simp: first_seen_distinct first_seen_set first_seen_snoc as_groups_def grouped_def comp_def)
  qed
qed

lemma fold_append_to:
  "fold (\<lambda>d. append_to (JStr (type_name d)) d) ds [] = as_groups (grouped ds)"
proof (induction ds rule: rev_induct)
  case Nil
  show ?case by (simp add: as_groups_def grouped_def)
next
  case (snoc d ds)
  then show ?case by (simp add: append_to_grouped)
qed

lemma record_ok_type: "record_ok m \<Longrightarrow> dict_get m ''type'' ''Unknown'' = JStr (type_name (JDict m))"
  by (auto simp: record_ok_def dict_get_def split: option.splits json.splits)

lemma group_loop_ok:
  "displayable devices \<Longrightarrow>
   group_loop devices gs =
     (map WarningUnexpectedDevice (filter (\<lambda>d. \<not> is_dict d) devices),
      Inr (fold (\<lambda>d. append_to (JStr (type_name d)) d) (filter is_dict devices) gs))"
proof (induction devices arbitrary: gs)
  case Nil
  show ?case by simp
next
  case (Cons d ds)
  then have ds: "displayable ds" and d: "displayable_device d"
    by (simp_all add: displayable_def)
  show ?case
  proof (cases d)
    case (JDict m)
    with d have "record_ok m" by simp
    then show ?thesis
      using Cons.IH [OF ds] JDict by (simp add: record_ok_type)
  qed (use Cons.IH [OF ds] in simp_all)
qed

lemma show_device_ok:
  "record_ok m \<Longrightarrow>
   show_device (JDict m) =
     ([DeviceSummary (dict_get m ''name'' ''Unnamed'') (dict_get m ''model'' ''N/A'')
         (dict_get m ''mac'' ''N/A'') (dict_get m ''status'' ''N/A''),
       DeviceDetail (dict_get m ''serial'' ''N/A'') (dict_get m ''site_id'' ''N/A''),
       Blank], None)"
  by (simp add: show_device_def record_ok_def Let_def)

lemma show_device_snd: "is_dict d \<Longrightarrow> displayable_device d \<Longrightarrow> show_device d = (device_lines d, None)"
  by (cases d) (simp_all add: show_device_ok device_lines_def)

lemma show_members_ok:
  "\<forall>d\<in>set ds. is_dict d \<and> displayable_device d \<Longrightarrow>
   show_members ds = (concat (map device_lines ds), None)"
  by (induction ds) (simp_all add: show_device_snd)

lemma show_groups_ok:
  "\<forall>g\<in>set gs. \<forall>d\<in>set (snd g). is_dict d \<and> displayable_device d \<Longrightarrow>
   show_groups up (as_groups gs) = (concat (map (group_lines up) gs), None)"
proof (induction gs)
  case Nil
  show ?case by (simp add: as_groups_def)
next
  case (Cons g gs)
  obtain t ds where g: "g = (t, ds)" by (cases g)
  from Cons.prems g have "show_members ds = (concat (map device_lines ds), None)"
    by (intro show_members_ok) simp
  moreover from Cons have "show_groups up (as_groups gs) = (concat (map (group_lines up) gs), None)"
    by simp
  ultimately show ?case
    using g by (simp add: as_groups_def)
qed

lemma grouped_members:
  "g \<in> set (grouped ds) \<Longrightarrow> d \<in> set (snd g) \<Longrightarrow> d \<in> set ds"
  by (auto simp: grouped_def)

lemma display_devices_nonempty:
  "devices \<noteq> [] \<Longrightarrow>
   display_devices up devices =
     (case group_loop devices [] of
        (ws, Inl e) \<Rightarrow> (banner devices @ ws, Some e)
      | (ws, Inr gs) \<Rightarrow> (case show_groups up gs of (ls, r) \<Rightarrow> (banner devices @ ws @ ls, r)))"
  by (cases devices) (simp_all add: display_devices_def banner_def Let_def del: group_loop.simps)

lemma display_devices_ok:
  assumes "displayable devices" "devices \<noteq> []"
  shows "display_devices up devices =
     (banner devices @
      map WarningUnexpectedDevice (filter (\<lambda>d. \<not> is_dict d) devices) @
      concat (map (group_lines up) (grouped (filter is_dict devices))), None)"
proof -
  have gl: "group_loop devices [] =
     (map WarningUnexpectedDevice (filter (\<lambda>d. \<not> is_dict d) devices),
      Inr (as_groups (grouped (filter is_dict devices))))"
    using group_loop_ok [OF assms(1), of "[]"] by (simp add: fold_append_to)
  have "\<forall>g\<in>set (grouped (filter is_dict devices)). \<forall>d\<in>set (snd g). is_dict d \<and> displayable_device d"
    using assms(1) by (auto dest!: grouped_members simp: displayable_def list_all_iff)
  then have sg: "show_groups up (as_groups (grouped (filter is_dict devices))) =
      (concat (map (group_lines up) (grouped (filter is_dict devices))), None)"
    by (rule show_groups_ok)
  from assms(2) show ?thesis
    by (simp add: display_devices_nonempty gl sg)
qed

lemma device_lines_kind:
  "filter is_header (device_lines d) = []"
  "filter is_warning (device_lines d) = []"
  "filter is_device_line (device_lines d) = device_lines d"
  by (cases d; simp add: device_lines_def show_device_def Let_def)+

lemma concat_device_lines_kind:
  "filter is_header (concat (map device_lines ds)) = []"
  "filter is_warning (concat (map device_lines ds)) = []"
  "filter is_device_line (concat (map device_lines ds)) = concat (map device_lines ds)"
  by (induction ds) (simp_all add: device_lines_kind)

lemma group_lines_kind:
  "filter is_header (concat (map (group_lines up) gs)) =
     map (\<lambda>g. GroupHeader (up (fst g)) (length (snd g))) gs"
  "filter is_warning (concat (map (group_lines up) gs)) = []"
  "filter is_device_line (concat (map (group_lines up) gs)) =
     concat (map device_lines (concat (map snd gs)))"
  by (induction gs) (auto simp: concat_device_lines_kind)

lemma banner_kind:
  "filter is_header (banner devices) = []"
  "filter is_warning (banner devices) = []"
  "filter is_device_line (banner devices) = []"
  by (simp_all add: banner_def split: json.splits)

lemma warnings_kind:
  "filter is_header (map WarningUnexpectedDevice ds) = []"
  "filter is_warning (map WarningUnexpectedDevice ds) = map WarningUnexpectedDevice ds"
  "filter is_device_line (map WarningUnexpectedDevice ds) = []"
  by (induction ds) simp_all




lemma headers_of_display:
  "displayable devices \<Longrightarrow>
   filter is_header (fst (display_devices up devices)) =
     map (\<lambda>t. GroupHeader (up t) (length (filter (\<lambda>d. is_dict d \<and> type_name d = t) devices)))
       (first_seen (map type_name (filter is_dict devices)))"
proof (cases "devices = []")
  case True
  then show ?thesis by (simp add: display_devices_def)
next
  case False
  assume "displayable devices"
  from display_devices_ok [OF this False] show ?thesis
    by (simp add: banner_kind warnings_kind group_lines_kind)
       (simp add: grouped_def comp_def conj_commute)
qed

lemma ascii_upper_examples:
  "ascii_upper ''ap'' = lit ''AP''" "ascii_upper ''switch'' = lit ''SWITCH''"
  "ascii_upper ''Unknown'' = lit ''UNKNOWN''"
  by (simp_all add: ascii_upper_def lit_def)

text \<open>
  C7. On a collection whose records can be displayed, the group headers that
  \<open>display_devices\<close> prints are, in this order, one for each type in the order in which
  the types are first seen scanning the collection from the front, each with the result of
  \<open>str.upper\<close> on the type and the number of records of that type. In particular three
  records of types \<open>ap\<close>, \<open>ap\<close>, \<open>switch\<close>, which \<open>str.upper\<close> turns into
  \<open>AP\<close> and \<open>SWITCH\<close>, give the headers \<open>AP\<close> with 2 and \<open>SWITCH\<close> with 1.
\<close>

theorem groups_in_first_seen_order:
  "(displayable devices \<longrightarrow>
      filter is_header (fst (display_devices up devices)) =
        map (\<lambda>t. GroupHeader (up t)
               (length (filter (\<lambda>d. is_dict d \<and> type_name d = t) devices)))
          (first_seen (map type_name (filter is_dict devices)))) \<and>
   (map_of ma ''type'' = Some (JStr ''ap'') \<longrightarrow> map_of mb ''type'' = Some (JStr ''ap'') \<longrightarrow>
    map_of mc ''type'' = Some (JStr ''switch'') \<longrightarrow> displayable [JDict ma, JDict mb, JDict mc] \<longrightarrow>
    up ''ap'' = lit ''AP'' \<longrightarrow> up ''switch'' = lit ''SWITCH'' \<longrightarrow>
      filter is_header (fst (display_devices up [JDict ma, JDict mb, JDict mc])) =
        [GroupHeader (lit ''AP'') 2, GroupHeader (lit ''SWITCH'') 1])"
proof (intro conjI impI)
  assume "displayable devices"
  then show "filter is_header (fst (display_devices up devices)) =
        map (\<lambda>t. GroupHeader (up t)
               (length (filter (\<lambda>d. is_dict d \<and> type_name d = t) devices)))
          (first_seen (map type_name (filter is_dict devices)))"
    by (rule headers_of_display)
next
  assume "map_of ma ''type'' = Some (JStr ''ap'')" "map_of mb ''type'' = Some (JStr ''ap'')"
    "map_of mc ''type'' = Some (JStr ''switch'')" "displayable [JDict ma, JDict mb, JDict mc]"
    "up ''ap'' = lit ''AP''" "up ''switch'' = lit ''SWITCH''"
  then show "filter is_header (fst (display_devices up [JDict ma, JDict mb, JDict mc])) =
        [GroupHeader (lit ''AP'') 2, GroupHeader (lit ''SWITCH'') 1]"
    by (simp add: headers_of_display)
qed

lemma examples_displayable: "displayable [ap1, JStr ''x'', ap2, JNum 3, sw1, JDict []]"
  by (simp add: displayable_def record_ok_def dict_get_def ap1_def ap2_def sw1_def)

theorem groups_in_first_seen_order_witness:
  "displayable [ap1, JStr ''x'', ap2, JNum 3, sw1, JDict []] \<and>
   filter is_header (fst (display_devices ascii_upper [ap1, JStr ''x'', ap2, JNum 3, sw1, JDict []])) =
     [GroupHeader (lit ''AP'') 2, GroupHeader (lit ''SWITCH'') 1, GroupHeader (lit ''UNKNOWN'') 1] \<and>
   map_of [(''type'', JStr ''ap''), (''name'', JStr ''lobby'')] ''type'' = Some (JStr ''ap'') \<and>
   map_of [(''type'', JStr ''ap'')] ''type'' = Some (JStr ''ap'') \<and>
   map_of [(''type'', JStr ''switch''), (''name'', JStr ''core'')] ''type'' = Some (JStr ''switch'') \<and>
   displayable [ap1, ap2, sw1] \<and>
   ascii_upper ''ap'' = lit ''AP'' \<and> ascii_upper ''switch'' = lit ''SWITCH'' \<and>
   filter is_header (fst (display_devices ascii_upper [ap1, ap2, sw1])) =
     [GroupHeader (lit ''AP'') 2, GroupHeader (lit ''SWITCH'') 1]"
proof -
  have d3: "displayable [ap1, ap2, sw1]"
    by (simp add: displayable_def record_ok_def dict_get_def ap1_def ap2_def sw1_def)
  have a: "filter is_header (fst (display_devices ascii_upper [ap1, JStr ''x'', ap2, JNum 3, sw1, JDict []])) =
     [GroupHeader (lit ''AP'') 2, GroupHeader (lit ''SWITCH'') 1, GroupHeader (lit ''UNKNOWN'') 1]"
    using examples_displayable
      groups_in_first_seen_order [where devices = "[ap1, JStr ''x'', ap2, JNum 3, sw1, JDict []]"
        and up = ascii_upper, THEN conjunct1]
    by (simp add: ap1_def ap2_def sw1_def ascii_upper_examples)
  have b: "filter is_header (fst (display_devices ascii_upper [ap1, ap2, sw1])) =
     [GroupHeader (lit ''AP'') 2, GroupHeader (lit ''SWITCH'') 1]"
    using d3
      groups_in_first_seen_order [where ma = "[(''type'', JStr ''ap''), (''name'', JStr ''lobby'')]"
        and mb = "[(''type'', JStr ''ap'')]"
        and mc = "[(''type'', JStr ''switch''), (''name'', JStr ''core'')]"
        and up = ascii_upper, THEN conjunct2]
    by (simp add: ap1_def ap2_def sw1_def ascii_upper_examples)
  from examples_displayable a b d3 ascii_upper_examples show ?thesis by simp
qed
























end
